theory Spec2Isabelle
  imports Main "HOL-Library.Word"
begin

section \<open>Text and bytes\<close>

text \<open>
  A Python \<open>str\<close> is a sequence of Unicode code points and \<open>len\<close> counts code
  points, so a \<open>str\<close> is a list of naturals. A \<open>bytes\<close> object is a list of 8-bit
  words. String literals of the source are written with \<open>str_of\<close>.
\<close>

type_synonym pystr = "nat list"
type_synonym byte = "8 word"

definition str_of :: "string \<Rightarrow> pystr" where
  "str_of s = map of_char s"

datatype py_error =
    UnicodeDecodeError
  | UnicodeEncodeError
  | KeyError
  | AttributeError
  | OSError
  | NameError

subsection \<open>\<open>bytes.decode("utf-8")\<close>\<close>

text \<open>
  The strict UTF-8 decoder of the Python runtime: well-formed sequences only (no
  overlong forms, no surrogates, nothing above U+10FFFF); anything else raises
  \<open>UnicodeDecodeError\<close>, here \<open>None\<close>.
\<close>

definition cont_byte :: "nat \<Rightarrow> bool" where
  "cont_byte b = (128 \<le> b \<and> b \<le> 191)"

fun decode_cps :: "nat list \<Rightarrow> pystr option" where
  "decode_cps [] = Some []"
| "decode_cps (b0 # bs) =
     (if b0 < 128 then map_option (Cons b0) (decode_cps bs)
      else if 194 \<le> b0 \<and> b0 \<le> 223 then
        (case bs of
           b1 # r \<Rightarrow>
             if cont_byte b1
             then map_option (Cons ((b0 - 192) * 64 + (b1 - 128))) (decode_cps r)
             else None
         | _ \<Rightarrow> None)
      else if 224 \<le> b0 \<and> b0 \<le> 239 then
        (case bs of
           b1 # b2 # r \<Rightarrow>
             if (if b0 = 224 then 160 else 128) \<le> b1
                \<and> b1 \<le> (if b0 = 237 then 159 else 191) \<and> cont_byte b2
             then map_option
                    (Cons ((b0 - 224) * 4096 + (b1 - 128) * 64 + (b2 - 128)))
                    (decode_cps r)
             else None
         | _ \<Rightarrow> None)
      else if 240 \<le> b0 \<and> b0 \<le> 244 then
        (case bs of
           b1 # b2 # b3 # r \<Rightarrow>
             if (if b0 = 240 then 144 else 128) \<le> b1
                \<and> b1 \<le> (if b0 = 244 then 143 else 191)
                \<and> cont_byte b2 \<and> cont_byte b3
             then map_option
                    (Cons ((b0 - 240) * 262144 + (b1 - 128) * 4096
                           + (b2 - 128) * 64 + (b3 - 128)))
                    (decode_cps r)
             else None
         | _ \<Rightarrow> None)
      else None)"

definition decode_utf8 :: "byte list \<Rightarrow> py_error + pystr" where
  "decode_utf8 raw =
     (case decode_cps (map unat raw) of
        None \<Rightarrow> Inl UnicodeDecodeError
      | Some s \<Rightarrow> Inr s)"

subsection \<open>\<open>bytes(s, "utf-8")\<close>\<close>

text \<open>
  The UTF-8 encoder of the Python runtime: one to four bytes for a code point. A
  \<open>str\<close> can hold a surrogate code point (U+D800 to U+DFFF), which has no UTF-8
  form: the encoder raises \<open>UnicodeEncodeError\<close>, here \<open>None\<close>. A \<open>str\<close> holds no
  code point above U+10FFFF.
\<close>

definition encode_cp :: "nat \<Rightarrow> nat list option" where
  "encode_cp c =
     (if c < 128 then Some [c]
      else if c < 2048 then Some [192 + c div 64, 128 + c mod 64]
      else if c < 65536 then
        (if 55296 \<le> c \<and> c \<le> 57343 then None
         else Some [224 + c div 4096, 128 + (c div 64) mod 64, 128 + c mod 64])
      else if c < 1114112 then
        Some [240 + c div 262144, 128 + (c div 4096) mod 64,
              128 + (c div 64) mod 64, 128 + c mod 64]
      else None)"

fun encode_cps :: "pystr \<Rightarrow> nat list option" where
  "encode_cps [] = Some []"
| "encode_cps (c # cs) =
     (case encode_cp c of
        None \<Rightarrow> None
      | Some bs \<Rightarrow> map_option ((@) bs) (encode_cps cs))"

definition encode_utf8 :: "pystr \<Rightarrow> py_error + byte list" where
  "encode_utf8 s =
     (case encode_cps s of
        None \<Rightarrow> Inl UnicodeEncodeError
      | Some bs \<Rightarrow> Inr (map of_nat bs))"

subsection \<open>\<open>str.split\<close>, \<open>str.join\<close>, \<open>str.endswith\<close>\<close>

text \<open>\<open>s.split(sep)\<close> for a one-character separator: never the empty list.\<close>

fun split_on :: "nat \<Rightarrow> pystr \<Rightarrow> pystr list" where
  "split_on sep [] = [[]]"
| "split_on sep (c # cs) =
     (if c = sep then [] # split_on sep cs
      else (case split_on sep cs of
              f # fs \<Rightarrow> (c # f) # fs
            | [] \<Rightarrow> [[c]]))"

text \<open>\<open>sep.join(xs)\<close> for a one-character separator.\<close>

fun join_with :: "nat \<Rightarrow> pystr list \<Rightarrow> pystr" where
  "join_with sep [] = []"
| "join_with sep [x] = x"
| "join_with sep (x # y # ys) = x @ sep # join_with sep (y # ys)"

definition comma :: nat where
  "comma = 44"

definition semicolon :: nat where
  "semicolon = 59"

definition newline :: nat where
  "newline = 10"

text \<open>\<open>s.endswith(';')\<close>.\<close>

definition ends_semicolon :: "pystr \<Rightarrow> bool" where
  "ends_semicolon s = (s \<noteq> [] \<and> last s = semicolon)"

subsection \<open>\<open>str.lower\<close> and \<open>str.isalnum\<close>\<close>

text \<open>
  Both are fixed here on the ASCII code points. What they do on a code point from
  128 on is decided by the Unicode character database of the Python runtime, which is
  no part of the repository: it is the parameter \<open>U\<close>. \<open>str.lower\<close> maps
  every code point on its own, to one or more code points, and may look at the text
  before and after it (the final sigma), so the table gets both.
\<close>

record unicode_db =
  uc_lower :: "pystr \<Rightarrow> nat \<Rightarrow> pystr \<Rightarrow> pystr"
  uc_isalnum :: "nat \<Rightarrow> bool"

definition is_AZ :: "nat \<Rightarrow> bool" where
  "is_AZ c = (65 \<le> c \<and> c \<le> 90)"

definition ascii_lower :: "nat \<Rightarrow> nat" where
  "ascii_lower c = (if is_AZ c then c + 32 else c)"

definition ascii_isalnum :: "nat \<Rightarrow> bool" where
  "ascii_isalnum c = ((48 \<le> c \<and> c \<le> 57) \<or> is_AZ c \<or> (97 \<le> c \<and> c \<le> 122))"

fun lower_from :: "unicode_db \<Rightarrow> pystr \<Rightarrow> pystr \<Rightarrow> pystr" where
  "lower_from U pre [] = []"
| "lower_from U pre (c # cs) =
     (if c < 128 then [ascii_lower c] else uc_lower U pre c cs)
     @ lower_from U (pre @ [c]) cs"

definition py_lower :: "unicode_db \<Rightarrow> pystr \<Rightarrow> pystr" where
  "py_lower U s = lower_from U [] s"

definition isalnum_cp :: "unicode_db \<Rightarrow> nat \<Rightarrow> bool" where
  "isalnum_cp U c = (if c < 128 then ascii_isalnum c else uc_isalnum U c)"

definition py_isalnum :: "unicode_db \<Rightarrow> pystr \<Rightarrow> bool" where
  "py_isalnum U s = (s \<noteq> [] \<and> list_all (isalnum_cp U) s)"

section \<open>server.py\<close>

definition MAX_SIZE :: nat where
  "MAX_SIZE = 4096"

definition MAX_NAME :: nat where
  "MAX_NAME = 32"

definition QUOTE_FIELDS :: nat where
  "QUOTE_FIELDS = 3"

definition REG_FIELDS :: nat where
  "REG_FIELDS = 2"

definition BAD_STOCK :: pystr where
  "BAD_STOCK = str_of ''-1''"

text \<open>
  The two module-level variables of the server: the dictionary loaded from the stock
  file, and the list of registered user names.
\<close>

record server_state =
  stock_dict :: "pystr \<rightharpoonup> pystr"
  reg_users :: "pystr list"

text \<open>
  \<open>buildPacket(command, stock_csv=None)\<close>. The result is the text handed to
  \<open>bytes(..., "utf-8")\<close>.
\<close>

definition price_of :: "(pystr \<rightharpoonup> pystr) \<Rightarrow> pystr \<Rightarrow> pystr" where
  "price_of d name = (case d name of Some p \<Rightarrow> p | None \<Rightarrow> BAD_STOCK)"

definition buildPacket :: "(pystr \<rightharpoonup> pystr) \<Rightarrow> pystr \<Rightarrow> pystr option \<Rightarrow> pystr" where
  "buildPacket d command stock_csv =
     (case stock_csv of
        Some csv \<Rightarrow>
          if command = str_of ''QUO''
          then str_of ''ROK'' @ [comma]
                 @ join_with comma (map (price_of d) (split_on comma csv))
                 @ [semicolon]
          else command @ [semicolon]
      | None \<Rightarrow> command @ [semicolon])"

text \<open>
  \<open>re.match(r"^([A-Z]{2,5},)*[A-Z]{2,5}$", quotes_csv)\<close>: \<open>n\<close> counts the capital
  letters read of the ticker at hand. \<open>$\<close> of Python also matches before a newline
  that ends the text.
\<close>

fun quotes_re :: "nat \<Rightarrow> pystr \<Rightarrow> bool" where
  "quotes_re n [] = (2 \<le> n \<and> n \<le> 5)"
| "quotes_re n (c # cs) =
     (if is_AZ c then quotes_re (Suc n) cs
      else if c = comma then 2 \<le> n \<and> n \<le> 5 \<and> quotes_re 0 cs
      else if c = newline \<and> cs = [] then 2 \<le> n \<and> n \<le> 5
      else False)"

text \<open>
  The body of the serve loop from the split of the decoded text to \<open>send_pkt\<close>,
  which starts as \<open>None\<close>; the state is returned as the body leaves it. The two
  blocks under \<open># attempted REG packet\<close> and \<open># attempted QUO packet\<close> are
  definitions of their own.
\<close>

definition reg_block :: "unicode_db \<Rightarrow> server_state \<Rightarrow> pystr list \<Rightarrow> pystr option \<times> server_state" where
  "reg_block U st recv_pkt_flds =
     (let given_command = recv_pkt_flds ! 0;
          strip_semicolon = butlast (recv_pkt_flds ! 1);
          given_uname = py_lower U strip_semicolon in
      if length given_uname > MAX_SIZE \<or> \<not> py_isalnum U given_uname
      then (Some (buildPacket (stock_dict st) (str_of ''INU'') None), st)
      else if given_command = str_of ''REG'' \<and> given_uname \<notin> set (reg_users st)
      then (Some (buildPacket (stock_dict st) (str_of ''ROK'') None),
            st\<lparr>reg_users := reg_users st @ [given_uname]\<rparr>)
      else if given_command = str_of ''REG'' \<and> given_uname \<in> set (reg_users st)
      then (Some (buildPacket (stock_dict st) (str_of ''UAE'') None), st)
      else if given_command = str_of ''UNR'' \<and> given_uname \<notin> set (reg_users st)
      then (Some (buildPacket (stock_dict st) (str_of ''UNR'') None), st)
      else if given_command = str_of ''UNR'' \<and> given_uname \<in> set (reg_users st)
      then (Some (buildPacket (stock_dict st) (str_of ''ROK'') None),
            st\<lparr>reg_users := remove1 given_uname (reg_users st)\<rparr>)
      else (None, st))"

definition quo_block :: "unicode_db \<Rightarrow> server_state \<Rightarrow> pystr list \<Rightarrow> pystr option \<times> server_state" where
  "quo_block U st recv_pkt_flds =
     (let given_uname = py_lower U (recv_pkt_flds ! 1) in
      if length given_uname > MAX_NAME \<or> \<not> py_isalnum U given_uname
      then (Some (buildPacket (stock_dict st) (str_of ''INU'') None), st)
      else if given_uname \<notin> set (reg_users st)
      then (Some (buildPacket (stock_dict st) (str_of ''UNR'') None), st)
      else
        (let w_semicolon = join_with comma (drop 2 recv_pkt_flds);
             quotes_csv = butlast w_semicolon in
         if quotes_re 0 quotes_csv
         then (Some (buildPacket (stock_dict st) (str_of ''QUO'') (Some quotes_csv)), st)
         else (Some (buildPacket (stock_dict st) (str_of ''INP'') None), st)))"

definition handle :: "unicode_db \<Rightarrow> server_state \<Rightarrow> pystr \<Rightarrow> pystr option \<times> server_state" where
  "handle U st data =
     (let recv_pkt_flds = split_on comma data in
      if recv_pkt_flds ! 0 \<notin> set [str_of ''REG'', str_of ''UNR'', str_of ''QUO'']
      then (Some (buildPacket (stock_dict st) (str_of ''INC'') None), st)
      else if length recv_pkt_flds = REG_FIELDS
              \<and> recv_pkt_flds ! 0 \<in> set [str_of ''REG'', str_of ''UNR'']
              \<and> ends_semicolon (recv_pkt_flds ! 1)
      then reg_block U st recv_pkt_flds
      else if length recv_pkt_flds \<ge> QUOTE_FIELDS
              \<and> recv_pkt_flds ! 0 = str_of ''QUO''
              \<and> ends_semicolon data
      then quo_block U st recv_pkt_flds
      else (Some (buildPacket (stock_dict st) (str_of ''INP'') None), st))"

text \<open>
  One turn of \<open>while True\<close> for a datagram that \<open>recvfrom(MAX_SIZE)\<close> delivers: at
  most \<open>MAX_SIZE\<close> bytes of it are read. The \<open>try\<close> around \<open>decode\<close> catches the
  socket's error only and no handler further out catches anything but
  \<open>KeyboardInterrupt\<close>, so an exception of \<open>decode\<close> ends the process. With
  \<open>send_pkt\<close> still \<open>None\<close> the body calls \<open>sys.exit\<close>, and \<open>sys\<close> is not
  imported. \<open>Sent\<close> is the call of \<open>sendto\<close> with the response; an error of the
  socket there is caught and printed, and the loop goes on.
\<close>

datatype turn =
    Sent pystr server_state
  | Crashed py_error server_state

definition serve_step :: "unicode_db \<Rightarrow> server_state \<Rightarrow> byte list \<Rightarrow> turn" where
  "serve_step U st dgram =
     (case decode_utf8 (take MAX_SIZE dgram) of
        Inl e \<Rightarrow> Crashed e st
      | Inr data \<Rightarrow>
          (case handle U st data of
             (None, st') \<Rightarrow> Crashed NameError st'
           | (Some send_pkt, st') \<Rightarrow> Sent send_pkt st'))"

text \<open>
  The serve loop over the datagrams that arrive, in order: the responses sent, the
  state at the end, and the exception that ended the loop, if one did.
\<close>

fun serve :: "unicode_db \<Rightarrow> server_state \<Rightarrow> byte list list
    \<Rightarrow> pystr list \<times> server_state \<times> py_error option" where
  "serve U st [] = ([], st, None)"
| "serve U st (dgram # dgrams) =
     (case serve_step U st dgram of
        Crashed e st' \<Rightarrow> ([], st', Some e)
      | Sent send_pkt st' \<Rightarrow>
          (case serve U st' dgrams of
             (out, st'', r) \<Rightarrow> (send_pkt # out, st'', r)))"

section \<open>client.py\<close>

definition COM_FIELDS :: nat where
  "COM_FIELDS = 1"

definition ATTEMPT_LIMIT :: nat where
  "ATTEMPT_LIMIT = 3"

text \<open>
  \<open>buildPacket(cmd, u_name, stocks_csv=None)\<close> of the client: every branch formats
  a text and hands it to \<open>bytes(..., "utf-8")\<close>, which raises when the text cannot
  be encoded. In the last branch \<open>if stocks_csv\<close> is false for \<open>None\<close> and for the
  empty text.
\<close>

definition client_buildPacket :: "pystr \<Rightarrow> pystr \<Rightarrow> pystr option \<Rightarrow> py_error + byte list" where
  "client_buildPacket cmd u_name stocks_csv =
     (if cmd \<in> set [str_of ''REG'', str_of ''UNR'']
      then encode_utf8 (cmd @ [comma] @ u_name @ [semicolon])
      else if cmd = str_of ''QUO'' \<and> stocks_csv \<noteq> None
      then encode_utf8 (cmd @ [comma] @ u_name @ [comma] @ the stocks_csv @ [semicolon])
      else (case stocks_csv of
              Some csv \<Rightarrow>
                if csv \<noteq> []
                then encode_utf8 (cmd @ [comma] @ u_name @ [comma] @ csv @ [semicolon])
                else encode_utf8 (cmd @ [comma] @ u_name @ [semicolon])
            | None \<Rightarrow> encode_utf8 (cmd @ [comma] @ u_name @ [semicolon])))"

definition response_codes :: "(pystr \<times> pystr) list" where
  "response_codes =
     [(str_of ''ROK'', str_of ''Request OK''),
      (str_of ''INC'', str_of ''Invalid command''),
      (str_of ''INP'', str_of ''Invalid parameter''),
      (str_of ''UAE'', str_of ''Username already exists''),
      (str_of ''UNR'', str_of ''Username not registered''),
      (str_of ''INU'', str_of ''Invalid username'')]"

text \<open>
  \<open>response.split(';')\<close>, then \<open>response[0].split(',')\<close>: the fields of the text
  before the first semicolon.
\<close>

definition response_fields_of :: "pystr \<Rightarrow> pystr list" where
  "response_fields_of response = split_on comma (split_on semicolon response ! 0)"

text \<open>
  \<open>raw_data.decode("utf-8")\<close> and then the two splits: the decoding of a datagram into
  its fields.
\<close>

definition decode_fields :: "byte list \<Rightarrow> py_error + pystr list" where
  "decode_fields raw_data =
     (case decode_utf8 raw_data of
        Inl e \<Rightarrow> Inl e
      | Inr response \<Rightarrow> Inr (response_fields_of response))"

definition show_quote :: "pystr \<times> pystr \<Rightarrow> pystr" where
  "show_quote stock_quote =
     (if snd stock_quote = BAD_STOCK
      then fst stock_quote @ str_of '' : invalid stock''
      else fst stock_quote @ str_of '' : '' @ snd stock_quote)"

text \<open>
  The body of the \<open>try\<close> from \<open>decode\<close> on: the lines printed, and the exception
  that leaves it, if one does. \<open>quote_csv\<close> is \<open>None\<close> unless the action asked
  for a quote.
\<close>

definition show_reply :: "byte list \<Rightarrow> pystr option \<Rightarrow> pystr list \<times> py_error option" where
  "show_reply raw_data quote_csv =
     (case decode_utf8 raw_data of
        Inl e \<Rightarrow> ([], Some e)
      | Inr response \<Rightarrow>
          (let response_fields = response_fields_of response in
           case map_of response_codes (response_fields ! 0) of
             None \<Rightarrow> ([], Some KeyError)
           | Some msg \<Rightarrow>
               if length response_fields > 1
               then (case quote_csv of
                       None \<Rightarrow> ([msg], Some AttributeError)
                     | Some csv \<Rightarrow>
                         (msg # map show_quote
                                  (zip (split_on comma csv) (drop COM_FIELDS response_fields)),
                          None))
               else ([msg], None)))"

text \<open>
  What the network does at one attempt: \<open>sendto\<close> raises, or it sends and then
  \<open>recvfrom\<close> times out, raises the socket's error (with the text that \<open>print\<close>
  shows for it), or returns a datagram.
\<close>

datatype net_event =
    SendError
  | Timeout
  | RecvError pystr
  | Reply "byte list"

datatype client_end =
    Returned
  | Raised py_error
  | Exited

record client_run =
  sent :: "byte list list"
  printed :: "pystr list"
  ended :: client_end

text \<open>
  The loop \<open>while attempts < ATTEMPT_LIMIT\<close> for one action; \<open>net k\<close> is what the
  network does at the attempt made with \<open>attempts = k\<close>. \<open>sendto\<close> stands outside
  the \<open>try\<close>; an exception that is neither \<open>timeout\<close> nor the socket's error
  leaves both loops of the client. The one \<open>print\<close> call for the socket's error
  writes two lines: \<open>Socket error!\<close>, then a blank and the text of the error.
\<close>

function retry_loop :: "(nat \<Rightarrow> net_event) \<Rightarrow> byte list \<Rightarrow> pystr option \<Rightarrow> nat \<Rightarrow> client_run" where
  "retry_loop net out_pkt quote_csv attempts =
     (if attempts < ATTEMPT_LIMIT then
        (case net attempts of
           SendError \<Rightarrow> \<lparr>sent = [], printed = [], ended = Raised OSError\<rparr>
         | Reply dgram \<Rightarrow>
             (case show_reply (take MAX_SIZE dgram) quote_csv of
                (lines, None) \<Rightarrow> \<lparr>sent = [out_pkt], printed = lines, ended = Returned\<rparr>
              | (lines, Some e) \<Rightarrow> \<lparr>sent = [out_pkt], printed = lines, ended = Raised e\<rparr>)
         | RecvError s_err \<Rightarrow>
             \<lparr>sent = [out_pkt],
              printed = [str_of ''Socket error!'', str_of '' '' @ s_err],
              ended = Exited\<rparr>
         | Timeout \<Rightarrow>
             (let r = retry_loop net out_pkt quote_csv (attempts + 1) in
              r\<lparr>sent := out_pkt # sent r,
                printed := (if attempts + 1 < ATTEMPT_LIMIT
                            then str_of ''timeout -- retry...''
                            else str_of ''timeout limit exceeded'') # printed r\<rparr>))
      else \<lparr>sent = [], printed = [], ended = Returned\<rparr>)"
  by pat_completeness auto
termination
  by (relation "measure (\<lambda>(net, out_pkt, quote_csv, attempts). ATTEMPT_LIMIT - attempts)") auto

declare retry_loop.simps [simp del]

section \<open>Notions of the claims\<close>

text \<open>A ticker as the grammar of the quote request has it: two to five capital letters.\<close>

definition is_ticker :: "pystr \<Rightarrow> bool" where
  "is_ticker t = (2 \<le> length t \<and> length t \<le> 5 \<and> list_all is_AZ t)"

text \<open>A code point that UTF-8 encodes: any but a surrogate.\<close>

definition scalar_value :: "nat \<Rightarrow> bool" where
  "scalar_value c = (c < 55296 \<or> (57343 < c \<and> c < 1114112))"

text \<open>
  A code point that \<open>str.lower\<close> leaves as it is wherever it stands: an ASCII code
  point that is no capital letter, or one from 128 on that the table maps to itself.
\<close>

definition lower_fixed :: "unicode_db \<Rightarrow> nat \<Rightarrow> bool" where
  "lower_fixed U x =
     (if x < 128 then \<not> is_AZ x else (\<forall>pre post. uc_lower U pre x post = [x]))"

text \<open>
  What is asked of the table for the code points from 128 on: what it gives for one of
  them holds only code points that \<open>str.lower\<close> leaves as they are. Nothing is asked
  of the ASCII code points, which the model fixes.
\<close>

definition lower_table_ok :: "unicode_db \<Rightarrow> bool" where
  "lower_table_ok U =
     (\<forall>pre c post. 128 \<le> c \<longrightarrow> list_all (lower_fixed U) (uc_lower U pre c post))"

text \<open>
  No user name is stored twice, and every stored name is in lower case: it holds no
  capital letter A to Z, and \<open>str.lower\<close> gives it back.
\<close>

definition users_inv :: "unicode_db \<Rightarrow> server_state \<Rightarrow> bool" where
  "users_inv U st =
     (distinct (reg_users st)
      \<and> list_all (\<lambda>u. list_all (\<lambda>c. \<not> is_AZ c) u \<and> py_lower U u = u) (reg_users st))"

section \<open>Concrete inputs\<close>

text \<open>
  A table for the code points from 128 on, for evaluating at concrete inputs: it leaves
  them as they are and counts none of them as alphanumeric.
\<close>

definition plain_db :: unicode_db where
  "plain_db = \<lparr>uc_lower = (\<lambda>pre c post. [c]), uc_isalnum = (\<lambda>c. False)\<rparr>"

text \<open>The bytes of an ASCII literal.\<close>

definition utf8_of :: "string \<Rightarrow> byte list" where
  "utf8_of s = map of_char s"

text \<open>
  The catalog of the first scenario, the server as it starts with it, and the server
  once \<open>alice\<close> has registered.
\<close>

definition catalog :: "pystr \<rightharpoonup> pystr" where
  "catalog = [str_of ''IBM'' \<mapsto> str_of ''121.11'', str_of ''FB'' \<mapsto> str_of ''23.22'']"

definition fresh :: server_state where
  "fresh = \<lparr>stock_dict = catalog, reg_users = []\<rparr>"

definition alice_in :: server_state where
  "alice_in = fresh\<lparr>reg_users := [str_of ''alice'']\<rparr>"

text \<open>A user name of 33 letters.\<close>

definition long_name :: pystr where
  "long_name = str_of ''aaaaaaaaaaaaaaaaaaaaaaaaaaaaaaaaa''"

section \<open>Facts about the text operations\<close>

lemma split_on_not_Nil: "split_on sep s \<noteq> []"
  by (induction s) (auto split: list.splits)

lemma split_on_nosep: "sep \<notin> set a \<Longrightarrow> split_on sep a = [a]"
  by (induction a) auto

lemma split_on_append: "sep \<notin> set a \<Longrightarrow> split_on sep (a @ sep # b) = a # split_on sep b"
  by (induction a) auto

lemma split_on_fields_subset: "f \<in> set (split_on sep s) \<Longrightarrow> set f \<subseteq> set s"
proof (induction s arbitrary: f)
  case Nil
  then show ?case by simp
next
  case (Cons c cs)
  show ?case
  proof (cases "c = sep")
    case True
    with Cons show ?thesis by auto
  next
    case False
    obtain g gs where g: "split_on sep cs = g # gs"
      using split_on_not_Nil [of sep cs] by (cases "split_on sep cs") auto
    with Cons.prems False have "f = c # g \<or> f \<in> set gs" by auto
    then show ?thesis
    proof
      assume "f = c # g"
      moreover have "set g \<subseteq> set cs" using Cons.IH [of g] g by simp
      ultimately show ?thesis by auto
    next
      assume "f \<in> set gs"
      then have "set f \<subseteq> set cs" using Cons.IH [of f] g by simp
      then show ?thesis by auto
    qed
  qed
qed

lemma join_split: "join_with sep (split_on sep s) = s"
proof (induction s)
  case Nil
  then show ?case by simp
next
  case (Cons c cs)
  obtain g gs where g: "split_on sep cs = g # gs"
    using split_on_not_Nil [of sep cs] by (cases "split_on sep cs") auto
  show ?case
  proof (cases "c = sep")
    case True
    with Cons g show ?thesis by simp
  next
    case False
    with Cons g show ?thesis by (cases gs) auto
  qed
qed

lemma split_join:
  "ts \<noteq> [] \<Longrightarrow> list_all (\<lambda>t. sep \<notin> set t) ts \<Longrightarrow> split_on sep (join_with sep ts) = ts"
proof (induction sep ts rule: join_with.induct)
  case (1 sep)
  then show ?case by simp
next
  case (2 sep x)
  then show ?case by (simp add: split_on_nosep)
next
  case (3 sep x y ys)
  then show ?case by (simp add: split_on_append)
qed

lemma split_on_hd: "split_on sep s ! 0 = takeWhile (\<lambda>c. c \<noteq> sep) s"
  by (induction s) (auto split: list.splits simp: split_on_not_Nil)

lemma lower_from_keeps_ascii:
  "c \<in> set s \<Longrightarrow> c < 128 \<Longrightarrow> ascii_lower c \<in> set (lower_from U pre s)"
  by (induction s arbitrary: pre) auto

lemma isalnum_lower_no_comma:
  assumes "py_isalnum U (py_lower U u)"
  shows "comma \<notin> set u" and "semicolon \<notin> set u"
proof -
  have all: "list_all (isalnum_cp U) (lower_from U [] u)"
    using assms by (simp add: py_isalnum_def py_lower_def)
  show "comma \<notin> set u"
  proof
    assume "comma \<in> set u"
    then have "ascii_lower comma \<in> set (lower_from U [] u)"
      by (rule lower_from_keeps_ascii) (simp add: comma_def)
    with all have "isalnum_cp U (ascii_lower comma)" by (simp add: list_all_iff)
    then show False
      by (simp add: isalnum_cp_def ascii_lower_def ascii_isalnum_def is_AZ_def comma_def)
  qed
  show "semicolon \<notin> set u"
  proof
    assume "semicolon \<in> set u"
    then have "ascii_lower semicolon \<in> set (lower_from U [] u)"
      by (rule lower_from_keeps_ascii) (simp add: semicolon_def)
    with all have "isalnum_cp U (ascii_lower semicolon)" by (simp add: list_all_iff)
    then show False
      by (simp add: isalnum_cp_def ascii_lower_def ascii_isalnum_def is_AZ_def semicolon_def)
  qed
qed

lemma cmd_neq:
  "str_of ''REG'' \<noteq> str_of ''UNR''" "str_of ''REG'' \<noteq> str_of ''QUO''"
  "str_of ''UNR'' \<noteq> str_of ''QUO''" "str_of ''UNR'' \<noteq> str_of ''REG''"
  "str_of ''QUO'' \<noteq> str_of ''REG''" "str_of ''QUO'' \<noteq> str_of ''UNR''"
  by (simp_all add: str_of_def)

lemma split3:
  fixes c :: nat
  obtains q r d where "c = q * 4096 + r * 64 + d" "r < 64" "d < 64"
    "c div 4096 = q" "(c div 64) mod 64 = r" "c mod 64 = d"
proof -
  define x where "x = c div 64"
  define d where "d = c mod 64"
  define q where "q = x div 64"
  define r where "r = x mod 64"
  have 1: "c = x * 64 + d" by (simp add: x_def d_def)
  have 2: "x = q * 64 + r" by (simp add: q_def r_def)
  have 3: "c = q * 4096 + r * 64 + d" by (subst 1, subst 2) simp
  have 4: "c div 4096 = q" by (simp add: q_def x_def)
  have 5: "r < 64" "d < 64" by (simp_all add: r_def d_def)
  have 6: "(c div 64) mod 64 = r" "c mod 64 = d" by (simp_all add: r_def x_def d_def)
  show ?thesis by (rule that [OF 3 5 4 6])
qed

lemma split4:
  fixes c :: nat
  obtains p q r d where "c = p * 262144 + q * 4096 + r * 64 + d" "q < 64" "r < 64" "d < 64"
    "c div 262144 = p" "(c div 4096) mod 64 = q" "(c div 64) mod 64 = r" "c mod 64 = d"
proof -
  obtain q0 r d where a: "c = q0 * 4096 + r * 64 + d" "r < 64" "d < 64"
    "c div 4096 = q0" "(c div 64) mod 64 = r" "c mod 64 = d"
    by (rule split3)
  define p where "p = q0 div 64"
  define q where "q = q0 mod 64"
  have 2: "q0 = p * 64 + q" by (simp add: p_def q_def)
  have 3: "c = p * 262144 + q * 4096 + r * 64 + d" by (subst a(1), subst 2) simp
  have "c div 4096 div 64 = c div 262144" by simp
  then have 4: "c div 262144 = p" unfolding a(4) p_def by simp
  have 5: "q < 64" by (simp add: q_def)
  have 6: "(c div 4096) mod 64 = q" unfolding a(4) q_def by simp
  show ?thesis by (rule that [OF 3 5 a(2,3) 4 6 a(5,6)])
qed

lemma decode_two_bytes:
  assumes "128 \<le> c" and "c < 2048"
  shows "decode_cps ((192 + c div 64) # (128 + c mod 64) # r) = map_option (Cons c) (decode_cps r)"
proof -
  define x where "x = c div 64"
  define d where "d = c mod 64"
  have c: "c = x * 64 + d" and d: "d < 64" by (simp_all add: x_def d_def)
  have x: "2 \<le> x" "x \<le> 31" using assms c d by linarith+
  have "decode_cps ((192 + x) # (128 + d) # r) = map_option (Cons (x * 64 + d)) (decode_cps r)"
    using x d by (simp add: cont_byte_def)
  then show ?thesis unfolding c [symmetric] by (simp add: x_def d_def)
qed

lemma decode_three_bytes:
  assumes "2048 \<le> c" and "c < 65536" and "\<not> (55296 \<le> c \<and> c \<le> 57343)"
  shows "decode_cps ((224 + c div 4096) # (128 + (c div 64) mod 64) # (128 + c mod 64) # r)
           = map_option (Cons c) (decode_cps r)"
proof -
  obtain q m d where s: "c = q * 4096 + m * 64 + d" "m < 64" "d < 64"
    "c div 4096 = q" "(c div 64) mod 64 = m" "c mod 64 = d"
    by (rule split3)
  have q: "q \<le> 15" using assms(2) s(1) by linarith
  have lo: "q = 0 \<Longrightarrow> 32 \<le> m" using assms(1) s(1,3) by linarith
  have hi: "q = 13 \<Longrightarrow> m \<le> 31" using assms(3) s(1,2,3) by linarith
  have "decode_cps ((224 + q) # (128 + m) # (128 + d) # r)
          = map_option (Cons (q * 4096 + m * 64 + d)) (decode_cps r)"
    using q lo hi s(2,3) by (simp add: cont_byte_def)
  then show ?thesis unfolding s(4,5,6) s(1) [symmetric] .
qed

lemma decode_four_bytes:
  assumes "65536 \<le> c" and "c < 1114112"
  shows "decode_cps ((240 + c div 262144) # (128 + (c div 4096) mod 64)
                      # (128 + (c div 64) mod 64) # (128 + c mod 64) # r)
           = map_option (Cons c) (decode_cps r)"
proof -
  obtain p q m d where s: "c = p * 262144 + q * 4096 + m * 64 + d" "q < 64" "m < 64" "d < 64"
    "c div 262144 = p" "(c div 4096) mod 64 = q" "(c div 64) mod 64 = m" "c mod 64 = d"
    by (rule split4)
  have p: "p \<le> 4" using assms(2) s(1) by linarith
  have lo: "p = 0 \<Longrightarrow> 16 \<le> q" using assms(1) s(1,3,4) by linarith
  have hi: "p = 4 \<Longrightarrow> q \<le> 15" using assms(2) s(1) by linarith
  have "decode_cps ((240 + p) # (128 + q) # (128 + m) # (128 + d) # r)
          = map_option (Cons (p * 262144 + q * 4096 + m * 64 + d)) (decode_cps r)"
    using p lo hi s(2,3,4) by (simp add: cont_byte_def)
  then show ?thesis unfolding s(5,6,7,8) s(1) [symmetric] .
qed

lemma decode_encode_cp:
  assumes "encode_cp c = Some bs"
  shows "decode_cps (bs @ r) = map_option (Cons c) (decode_cps r)"
proof -
  consider "c < 128" | "128 \<le> c" "c < 2048"
    | "2048 \<le> c" "c < 65536" | "65536 \<le> c" "c < 1114112" | "1114112 \<le> c"
    by linarith
  then show ?thesis
  proof cases
    case 1
    with assms have "bs = [c]" by (simp add: encode_cp_def)
    with 1 show ?thesis by simp
  next
    case 2
    with assms have "bs = [192 + c div 64, 128 + c mod 64]" by (simp add: encode_cp_def)
    with 2 show ?thesis using decode_two_bytes [of c r] by simp
  next
    case 3
    with assms have n: "\<not> (55296 \<le> c \<and> c \<le> 57343)"
      and "bs = [224 + c div 4096, 128 + (c div 64) mod 64, 128 + c mod 64]"
      by (auto simp: encode_cp_def split: if_splits)
    with 3 show ?thesis using decode_three_bytes [of c r] by simp
  next
    case 4
    with assms have "bs = [240 + c div 262144, 128 + (c div 4096) mod 64,
              128 + (c div 64) mod 64, 128 + c mod 64]"
      by (simp add: encode_cp_def)
    with 4 show ?thesis using decode_four_bytes [of c r] by simp
  next
    case 5
    with assms show ?thesis by (simp add: encode_cp_def)
  qed
qed

lemma encode_cp_bytes: "encode_cp c = Some bs \<Longrightarrow> list_all (\<lambda>b. b < 256) bs"
proof -
  assume a: "encode_cp c = Some bs"
  have m: "c mod 64 < 64" "(c div 64) mod 64 < 64" "(c div 4096) mod 64 < 64" by simp_all
  consider "c < 128" | "128 \<le> c" "c < 2048"
    | "2048 \<le> c" "c < 65536" | "65536 \<le> c" "c < 1114112" | "1114112 \<le> c"
    by linarith
  then show ?thesis
  proof cases
    case 1
    with a show ?thesis by (auto simp: encode_cp_def)
  next
    case 2
    then have "c div 64 < 32" by (simp add: less_mult_imp_div_less)
    with a 2 m(1) show ?thesis by (auto simp: encode_cp_def)
  next
    case 3
    then have "c div 4096 < 16" by (simp add: less_mult_imp_div_less)
    with a 3 m(1,2) show ?thesis by (auto simp: encode_cp_def split: if_splits)
  next
    case 4
    then have "c div 262144 < 5" by (simp add: less_mult_imp_div_less)
    with a 4 m show ?thesis by (auto simp: encode_cp_def)
  next
    case 5
    with a show ?thesis by (simp add: encode_cp_def)
  qed
qed

lemma encode_cps_parts:
  assumes "encode_cps (c # cs) = Some bs"
  obtains b1 b2 where "encode_cp c = Some b1" "encode_cps cs = Some b2" "bs = b1 @ b2"
  using assms by (auto split: option.splits)

lemma decode_encode_cps: "encode_cps s = Some bs \<Longrightarrow> decode_cps bs = Some s"
proof (induction s arbitrary: bs)
  case Nil
  then show ?case by simp
next
  case (Cons c cs)
  from Cons.prems obtain b1 b2
    where b: "encode_cp c = Some b1" "encode_cps cs = Some b2" "bs = b1 @ b2"
    by (rule encode_cps_parts)
  have "decode_cps (b1 @ b2) = map_option (Cons c) (decode_cps b2)"
    using b(1) by (rule decode_encode_cp)
  also have "decode_cps b2 = Some cs" using b(2) by (rule Cons.IH)
  finally show ?case using b(3) by simp
qed

lemma encode_cps_bytes: "encode_cps s = Some bs \<Longrightarrow> list_all (\<lambda>b. b < 256) bs"
proof (induction s arbitrary: bs)
  case Nil
  then show ?case by simp
next
  case (Cons c cs)
  from Cons.prems obtain b1 b2
    where b: "encode_cp c = Some b1" "encode_cps cs = Some b2" "bs = b1 @ b2"
    by (rule encode_cps_parts)
  show ?case using encode_cp_bytes [OF b(1)] Cons.IH [OF b(2)] b(3) by simp
qed

lemma encode_cps_scalar: "list_all scalar_value s \<Longrightarrow> \<exists>bs. encode_cps s = Some bs"
proof (induction s)
  case Nil
  then show ?case by simp
next
  case (Cons c cs)
  then obtain b2 where "encode_cps cs = Some b2" by auto
  moreover have "encode_cp c \<noteq> None"
    using Cons.prems by (auto simp: scalar_value_def encode_cp_def)
  ultimately show ?case by auto
qed

lemma unat_byte: "b < 256 \<Longrightarrow> unat (of_nat b :: byte) = b"
  by (simp add: unat_of_nat take_bit_nat_eq_self_iff)

lemma unat_bytes: "list_all (\<lambda>b. b < 256) bs \<Longrightarrow> map unat (map of_nat bs :: byte list) = bs"
  by (induction bs) (simp_all add: unat_byte)

lemma decode_encode_utf8:
  assumes "encode_utf8 s = Inr raw"
  shows "decode_utf8 raw = Inr s"
proof -
  obtain bs where bs: "encode_cps s = Some bs" "raw = map of_nat bs"
    using assms by (auto simp: encode_utf8_def split: option.splits)
  have "list_all (\<lambda>b. b < 256) bs" using bs(1) by (rule encode_cps_bytes)
  then have "map unat raw = bs" unfolding bs(2) by (rule unat_bytes)
  then show ?thesis using decode_encode_cps [OF bs(1)] by (simp add: decode_utf8_def)
qed

lemma encode_utf8_scalar: "list_all scalar_value s \<Longrightarrow> \<exists>raw. encode_utf8 s = Inr raw"
  using encode_cps_scalar [of s] by (auto simp: encode_utf8_def)

lemma encode_cps_ascii: "list_all (\<lambda>c. c < 128) s \<Longrightarrow> encode_cps s = Some s"
  by (induction s) (auto simp: encode_cp_def)

lemma lower_from_fixed: "list_all (lower_fixed U) t \<Longrightarrow> lower_from U pre t = t"
  by (induction t arbitrary: pre) (auto simp: lower_fixed_def ascii_lower_def split: if_splits)

lemma ascii_lower_fixed: "c < 128 \<Longrightarrow> lower_fixed U (ascii_lower c)"
  by (simp add: lower_fixed_def ascii_lower_def is_AZ_def)

lemma lower_from_gives_fixed:
  assumes "lower_table_ok U"
  shows "list_all (lower_fixed U) (lower_from U pre s)"
proof (induction s arbitrary: pre)
  case Nil
  then show ?case by simp
next
  case (Cons c cs)
  have "128 \<le> c \<Longrightarrow> list_all (lower_fixed U) (uc_lower U pre c cs)"
    using assms by (simp add: lower_table_ok_def)
  then show ?case using Cons [of "pre @ [c]"] by (simp add: ascii_lower_fixed)
qed

lemma lower_fixed_no_capital: "lower_fixed U x \<Longrightarrow> \<not> is_AZ x"
  by (cases "x < 128") (simp_all add: lower_fixed_def is_AZ_def)

lemma py_lower_is_lowercase:
  assumes "lower_table_ok U"
  shows "list_all (\<lambda>c. \<not> is_AZ c) (py_lower U s)" and "py_lower U (py_lower U s) = py_lower U s"
proof -
  have f: "list_all (lower_fixed U) (py_lower U s)"
    unfolding py_lower_def using assms by (rule lower_from_gives_fixed)
  then show "list_all (\<lambda>c. \<not> is_AZ c) (py_lower U s)"
    using lower_fixed_no_capital [of U] by (auto simp: list_all_iff)
  show "py_lower U (py_lower U s) = py_lower U s"
    using f lower_from_fixed [of U "py_lower U s" "[]"] by (simp add: py_lower_def)
qed

section \<open>Facts about the server\<close>

lemma buildPacket_None: "buildPacket d c None = c @ [semicolon]"
  by (simp add: buildPacket_def)

lemma reg_block_sends:
  "flds ! 0 \<in> set [str_of ''REG'', str_of ''UNR''] \<Longrightarrow> \<exists>pkt. fst (reg_block U st flds) = Some pkt"
  by (auto simp: reg_block_def Let_def)

lemma quo_block_sends: "\<exists>pkt. fst (quo_block U st flds) = Some pkt"
  by (simp add: quo_block_def Let_def)

lemma handle_sends: "\<exists>pkt. fst (handle U st data) = Some pkt"
  unfolding handle_def Let_def
  using reg_block_sends quo_block_sends by (simp del: set_simps)

lemma serve_step_sends:
  assumes "decode_utf8 (take MAX_SIZE dgram) = Inr data"
  shows "\<exists>send_pkt st'. serve_step U st dgram = Sent send_pkt st'"
proof -
  obtain r st' where h: "handle U st data = (r, st')" by (cases "handle U st data")
  obtain send_pkt where "fst (handle U st data) = Some send_pkt"
    using handle_sends by blast
  with h have "r = Some send_pkt" by simp
  with h have "serve_step U st dgram = Sent send_pkt st'"
    by (simp add: serve_step_def assms)
  then show ?thesis by blast
qed

lemma lower_from_plain:
  "list_all (\<lambda>c. c < 128 \<and> \<not> is_AZ c) s \<Longrightarrow> lower_from U pre s = s"
  by (induction s arbitrary: pre) (auto simp: ascii_lower_def)

lemma py_lower_plain:
  "list_all (\<lambda>c. c < 128 \<and> \<not> is_AZ c) s \<Longrightarrow> py_lower U s = s"
  by (simp add: py_lower_def lower_from_plain)

lemma list_all_isalnum_ascii:
  "list_all (\<lambda>c. c < 128 \<and> ascii_isalnum c) s \<Longrightarrow> list_all (isalnum_cp U) s"
  by (induction s) (auto simp: isalnum_cp_def)

lemma py_isalnum_ascii:
  "s \<noteq> [] \<Longrightarrow> list_all (\<lambda>c. c < 128 \<and> ascii_isalnum c) s \<Longrightarrow> py_isalnum U s"
  by (simp add: py_isalnum_def list_all_isalnum_ascii)

lemma long_name_facts:
  "length long_name = 33" "comma \<notin> set long_name" "semicolon \<notin> set long_name"
  "py_lower U long_name = long_name" "py_isalnum U long_name"
proof -
  show "length long_name = 33" by (simp add: long_name_def str_of_def)
  show "comma \<notin> set long_name" by (simp add: long_name_def str_of_def comma_def)
  show "semicolon \<notin> set long_name" by (simp add: long_name_def str_of_def semicolon_def)
  show "py_lower U long_name = long_name"
    by (rule py_lower_plain) (simp add: long_name_def str_of_def is_AZ_def)
  show "py_isalnum U long_name"
    by (rule py_isalnum_ascii) (simp_all add: long_name_def str_of_def ascii_isalnum_def)
qed

lemma split_two_fields:
  "comma \<notin> set c \<Longrightarrow> comma \<notin> set u \<Longrightarrow>
   split_on comma (c @ [comma] @ u @ [semicolon]) = [c, u @ [semicolon]]"
  by (simp add: split_on_append split_on_nosep comma_def semicolon_def)

lemma cmd_no_comma:
  "comma \<notin> set (str_of ''REG'')" "comma \<notin> set (str_of ''UNR'')"
  "comma \<notin> set (str_of ''QUO'')"
  by (simp_all add: str_of_def comma_def)

lemma response_text:
  "str_of ''INC'' @ [semicolon] = str_of ''INC;''"
  "str_of ''INP'' @ [semicolon] = str_of ''INP;''"
  "str_of ''INU'' @ [semicolon] = str_of ''INU;''"
  "str_of ''ROK'' @ [semicolon] = str_of ''ROK;''"
  "str_of ''UAE'' @ [semicolon] = str_of ''UAE;''"
  "str_of ''UNR'' @ [semicolon] = str_of ''UNR;''"
  by (simp_all add: str_of_def semicolon_def)

lemma handle_two_fields:
  assumes "comma \<notin> set u" and "c \<in> set [str_of ''REG'', str_of ''UNR'']"
  shows "handle U st (c @ [comma] @ u @ [semicolon]) = reg_block U st [c, u @ [semicolon]]"
proof -
  have c: "comma \<notin> set c" using assms(2) cmd_no_comma by auto
  have s: "split_on comma (c @ [comma] @ u @ [semicolon]) = [c, u @ [semicolon]]"
    using c assms(1) by (rule split_two_fields)
  have e: "ends_semicolon (u @ [semicolon])" by (simp add: ends_semicolon_def)
  show ?thesis
    unfolding handle_def Let_def s using assms(2) e by (auto simp: REG_FIELDS_def)
qed

lemma reg_block_REG:
  assumes "py_isalnum U (py_lower U u)" and "length (py_lower U u) \<le> MAX_SIZE"
  shows "reg_block U st [str_of ''REG'', u @ [semicolon]] =
           (if py_lower U u \<in> set (reg_users st)
            then (Some (str_of ''UAE;''), st)
            else (Some (str_of ''ROK;''), st\<lparr>reg_users := reg_users st @ [py_lower U u]\<rparr>))"
  using assms by (simp add: reg_block_def Let_def buildPacket_None response_text)

lemma no_semicolon_not_ends: "semicolon \<notin> set s \<Longrightarrow> \<not> ends_semicolon s"
proof
  assume n: "semicolon \<notin> set s" and e: "ends_semicolon s"
  from e have "s \<noteq> []" and "last s = semicolon" by (simp_all add: ends_semicolon_def)
  then have "semicolon \<in> set s" using last_in_set [of s] by simp
  with n show False by simp
qed

lemma no_semicolon_field:
  assumes "semicolon \<notin> set data" and "i < length (split_on comma data)"
  shows "\<not> ends_semicolon (split_on comma data ! i)"
proof -
  have "split_on comma data ! i \<in> set (split_on comma data)" using assms(2) by simp
  then have "set (split_on comma data ! i) \<subseteq> set data" by (rule split_on_fields_subset)
  with assms(1) have "semicolon \<notin> set (split_on comma data ! i)" by auto
  then show ?thesis by (rule no_semicolon_not_ends)
qed

lemma quotes_re_run:
  "list_all is_AZ t \<Longrightarrow> quotes_re n (t @ r) = quotes_re (n + length t) r"
  by (induction t arbitrary: n) auto

lemma quotes_re_join:
  "ts \<noteq> [] \<Longrightarrow> list_all is_ticker ts \<Longrightarrow> quotes_re 0 (join_with comma ts)"
proof (induction comma ts rule: join_with.induct)
  case 1
  then show ?case by simp
next
  case (2 x)
  then have "quotes_re 0 (x @ []) = quotes_re (0 + length x) []"
    by (intro quotes_re_run) (simp add: is_ticker_def)
  with 2 show ?case by (simp add: is_ticker_def)
next
  case (3 x y ys)
  have "quotes_re 0 (x @ comma # join_with comma (y # ys))
          = quotes_re (0 + length x) (comma # join_with comma (y # ys))"
    using 3 by (intro quotes_re_run) (simp add: is_ticker_def)
  moreover have "\<not> is_AZ comma" by (simp add: is_AZ_def comma_def)
  ultimately show ?case using 3 by (simp add: is_ticker_def)
qed

lemma ticker_no_comma: "is_ticker t \<Longrightarrow> comma \<notin> set t"
proof
  assume t: "is_ticker t" and c: "comma \<in> set t"
  then have "is_AZ comma" by (simp add: is_ticker_def list_all_iff)
  then show False by (simp add: is_AZ_def comma_def)
qed

lemma tickers_no_comma: "list_all is_ticker ts \<Longrightarrow> list_all (\<lambda>t. comma \<notin> set t) ts"
  by (induction ts) (auto simp: ticker_no_comma)

lemma buildPacket_QUO:
  "buildPacket d (str_of ''QUO'') (Some csv) =
     str_of ''ROK'' @ [comma] @ join_with comma (map (price_of d) (split_on comma csv)) @ [semicolon]"
  by (simp add: buildPacket_def)

lemma quo_block_tickers:
  assumes "length (py_lower U (flds ! 1)) \<le> MAX_NAME"
    and "py_isalnum U (py_lower U (flds ! 1))"
    and "py_lower U (flds ! 1) \<in> set (reg_users st)"
    and "butlast (join_with comma (drop 2 flds)) = join_with comma ts"
    and "ts \<noteq> []" and "list_all is_ticker ts"
  shows "quo_block U st flds =
           (Some (str_of ''ROK'' @ [comma]
                    @ join_with comma (map (price_of (stock_dict st)) ts) @ [semicolon]), st)"
proof -
  have re: "quotes_re 0 (join_with comma ts)" using assms(5,6) by (rule quotes_re_join)
  have sp: "split_on comma (join_with comma ts) = ts"
    using assms(5) tickers_no_comma [OF assms(6)] by (rule split_join)
  show ?thesis
    unfolding quo_block_def Let_def assms(4)
    using assms(1,2,3) re by (simp add: buildPacket_QUO sp)
qed

lemma reg_block_state_QUO:
  "flds ! 0 = str_of ''QUO'' \<Longrightarrow> snd (reg_block U st flds) = st"
  by (simp add: reg_block_def Let_def cmd_neq)

lemma quo_block_state: "snd (quo_block U st flds) = st"
  by (simp add: quo_block_def Let_def)

lemma handle_QUO_state:
  "split_on comma data ! 0 = str_of ''QUO'' \<Longrightarrow> snd (handle U st data) = st"
  unfolding handle_def Let_def by (simp add: quo_block_state cmd_neq)

lemma reg_block_inv:
  assumes "lower_table_ok U" and "users_inv U st"
  shows "users_inv U (snd (reg_block U st flds))"
proof -
  let ?n = "py_lower U (butlast (flds ! 1))"
  have low: "list_all (\<lambda>c. \<not> is_AZ c) ?n" "py_lower U ?n = ?n"
    using assms(1) by (rule py_lower_is_lowercase)+
  have app: "?n \<notin> set (reg_users st) \<Longrightarrow> users_inv U (st\<lparr>reg_users := reg_users st @ [?n]\<rparr>)"
    using assms(2) low by (simp add: users_inv_def)
  have rem: "users_inv U (st\<lparr>reg_users := remove1 ?n (reg_users st)\<rparr>)"
    using assms(2) notin_set_remove1 [of _ "reg_users st" ?n]
    by (auto simp: users_inv_def list_all_iff)
  show ?thesis
    unfolding reg_block_def Let_def using assms(2) app rem by simp
qed

lemma handle_inv:
  assumes "lower_table_ok U" and "users_inv U st"
  shows "users_inv U (snd (handle U st data))"
  unfolding handle_def Let_def
  using assms(2) reg_block_inv [OF assms] by (simp add: quo_block_state del: set_simps)

lemma serve_step_inv:
  assumes "lower_table_ok U" and "users_inv U st"
  shows "case serve_step U st dgram of Sent p st' \<Rightarrow> users_inv U st' | Crashed e st' \<Rightarrow> users_inv U st'"
proof (cases "decode_utf8 (take MAX_SIZE dgram)")
  case (Inl e)
  then show ?thesis using assms(2) by (simp add: serve_step_def)
next
  case (Inr data)
  obtain r st' where h: "handle U st data = (r, st')" by (cases "handle U st data")
  have "users_inv U (snd (handle U st data))" using assms by (rule handle_inv)
  then have "users_inv U st'" by (simp add: h)
  then show ?thesis by (cases r) (simp_all add: serve_step_def Inr h)
qed

lemma serve_inv:
  assumes "lower_table_ok U"
  shows "users_inv U st \<Longrightarrow> users_inv U (fst (snd (serve U st dgrams)))"
proof (induction dgrams arbitrary: st)
  case Nil
  then show ?case by simp
next
  case (Cons dgram dgrams)
  show ?case
  proof (cases "serve_step U st dgram")
    case (Sent p st')
    then have "users_inv U st'" using serve_step_inv [OF assms Cons.prems, of dgram] by simp
    then have "users_inv U (fst (snd (serve U st' dgrams)))" by (rule Cons.IH)
    with Sent show ?thesis by (cases "serve U st' dgrams") simp
  next
    case (Crashed e st')
    then have "users_inv U st'" using serve_step_inv [OF assms Cons.prems, of dgram] by simp
    with Crashed show ?thesis by simp
  qed
qed

lemma lower_from_plain_db: "lower_from plain_db pre s = map ascii_lower s"
  by (induction s arbitrary: pre) (auto simp: plain_db_def ascii_lower_def is_AZ_def)

lemma lower_table_ok_plain_db: "lower_table_ok plain_db"
  by (simp add: lower_table_ok_def lower_fixed_def plain_db_def)

lemma decode_ascii_cps: "list_all (\<lambda>b. b < 128) bs \<Longrightarrow> decode_cps bs = Some bs"
  by (induction bs) auto

lemma set_join_with: "set (join_with sep xs) \<subseteq> insert sep (\<Union> (set ` set xs))"
  by (induction sep xs rule: join_with.induct) auto

lemma join_no_semicolon:
  assumes "list_all (\<lambda>f. comma \<notin> set f \<and> semicolon \<notin> set f) xs"
  shows "semicolon \<notin> set (join_with comma xs)"
proof
  assume "semicolon \<in> set (join_with comma xs)"
  then have "semicolon \<in> insert comma (\<Union> (set ` set xs))"
    using set_join_with [of comma xs] by blast
  moreover have "semicolon \<noteq> comma" by (simp add: semicolon_def comma_def)
  ultimately obtain f where "f \<in> set xs" and "semicolon \<in> set f" by auto
  with assms show False by (simp add: list_all_iff)
qed

lemma fields_of_join:
  assumes "xs \<noteq> []" and "list_all (\<lambda>f. comma \<notin> set f \<and> semicolon \<notin> set f) xs"
  shows "response_fields_of (join_with comma xs @ [semicolon]) = xs"
proof -
  have n: "semicolon \<notin> set (join_with comma xs)" using assms(2) by (rule join_no_semicolon)
  have "split_on semicolon (join_with comma xs @ semicolon # []) = join_with comma xs # split_on semicolon []"
    using n by (rule split_on_append)
  then have h: "split_on semicolon (join_with comma xs @ [semicolon]) ! 0 = join_with comma xs"
    by simp
  have c: "list_all (\<lambda>f. comma \<notin> set f) xs" using assms(2) by (simp add: list_all_iff)
  show ?thesis unfolding response_fields_of_def h using assms(1) c by (rule split_join)
qed

lemma client_buildPacket_join:
  assumes "extra \<noteq> [] \<Longrightarrow> cmd \<notin> set [str_of ''REG'', str_of ''UNR'']"
    and "extra = [[]] \<Longrightarrow> cmd = str_of ''QUO''"
  shows "client_buildPacket cmd u_name (if extra = [] then None else Some (join_with comma extra))
           = encode_utf8 (join_with comma (cmd # u_name # extra) @ [semicolon])"
proof (cases extra)
  case Nil
  then show ?thesis by (simp add: client_buildPacket_def)
next
  case (Cons f fs)
  have e: "join_with comma extra = [] \<longleftrightarrow> extra = [[]]"
    unfolding Cons by (cases fs) simp_all
  have j: "join_with comma (cmd # u_name # extra)
             = cmd @ [comma] @ u_name @ [comma] @ join_with comma extra"
    unfolding Cons by simp
  have r: "cmd \<notin> set [str_of ''REG'', str_of ''UNR'']" using assms(1) Cons by simp
  show ?thesis
    unfolding j using r assms(2) e Cons by (auto simp: client_buildPacket_def)
qed

lemma join_scalar:
  "list_all (list_all scalar_value) xs \<Longrightarrow> list_all scalar_value (join_with comma xs)"
  by (induction comma xs rule: join_with.induct) (simp_all add: scalar_value_def comma_def)

lemma decode_fields_encoded:
  assumes "xs \<noteq> []"
    and "list_all (\<lambda>f. comma \<notin> set f \<and> semicolon \<notin> set f \<and> list_all scalar_value f) xs"
  shows "\<exists>pkt. encode_utf8 (join_with comma xs @ [semicolon]) = Inr pkt
               \<and> decode_fields pkt = Inr xs"
proof -
  have "list_all (list_all scalar_value) xs" using assms(2) by (simp add: list_all_iff)
  then have "list_all scalar_value (join_with comma xs)" by (rule join_scalar)
  then have "list_all scalar_value (join_with comma xs @ [semicolon])"
    by (simp add: scalar_value_def semicolon_def)
  then obtain pkt where p: "encode_utf8 (join_with comma xs @ [semicolon]) = Inr pkt"
    using encode_utf8_scalar by blast
  then have d: "decode_utf8 pkt = Inr (join_with comma xs @ [semicolon])"
    by (rule decode_encode_utf8)
  have "list_all (\<lambda>f. comma \<notin> set f \<and> semicolon \<notin> set f) xs"
    using assms(2) by (simp add: list_all_iff)
  with assms(1) have "response_fields_of (join_with comma xs @ [semicolon]) = xs"
    by (rule fields_of_join)
  with p d show ?thesis by (simp add: decode_fields_def)
qed

lemma encode_utf8_ascii:
  "list_all (\<lambda>c. c < 128) s \<Longrightarrow> encode_utf8 s = Inr (map of_nat s)"
  by (simp add: encode_utf8_def encode_cps_ascii)

lemma surrogate_name_raises:
  "client_buildPacket (str_of ''REG'') [56448] None = Inl UnicodeEncodeError"
  by (simp add: client_buildPacket_def encode_utf8_def encode_cp_def str_of_def
      comma_def semicolon_def)

lemma reg_block_UNR:
  assumes "py_isalnum U (py_lower U u)" and "length (py_lower U u) \<le> MAX_SIZE"
  shows "reg_block U st [str_of ''UNR'', u @ [semicolon]] =
           (if py_lower U u \<in> set (reg_users st)
            then (Some (str_of ''ROK;''), st\<lparr>reg_users := remove1 (py_lower U u) (reg_users st)\<rparr>)
            else (Some (str_of ''UNR;''), st))"
  using assms by (simp add: reg_block_def Let_def buildPacket_None response_text cmd_neq)

lemma serve_step_text:
  assumes "decode_utf8 (take MAX_SIZE dgram) = Inr data"
    and "handle U st data = (Some send_pkt, st')"
  shows "serve_step U st dgram = Sent send_pkt st'"
  by (simp add: serve_step_def assms)

section \<open>The claims\<close>

subsection \<open>C1\<close>

text \<open>
  C1 says that every inbound datagram gets exactly one response and that no datagram
  ends the serve loop. A datagram that decodes does get exactly one response
  (\<open>serve_step_sends\<close>). The datagram of the single byte \<open>0xFF\<close> is not UTF-8:
  \<open>decode\<close> raises \<open>UnicodeDecodeError\<close>, nothing catches it, no response is sent
  for it, and the datagrams behind it are never served.
\<close>

theorem undecodable_datagram_ends_serve:
  "serve U st ([255] # dgrams) = ([], st, Some UnicodeDecodeError)"
  by (simp add: serve_step_def decode_utf8_def MAX_SIZE_def)

theorem undecodable_datagram_ends_serve_witness:
  "serve plain_db fresh [[255], utf8_of ''REG,alice;'']
     = ([], fresh, Some UnicodeDecodeError)"
  by (rule undecodable_datagram_ends_serve)

subsection \<open>C2\<close>

text \<open>
  C2 says that a REG or UNR request whose user name is longer than 32 is answered
  INU. The REG block compares the length with \<open>MAX_SIZE\<close>, not \<open>MAX_NAME\<close>: the
  request \<open>REG,\<close> \<open>long_name\<close> \<open>;\<close> with a name of 33 letters is answered ROK and
  the name is stored (UAE when it is stored already), never INU.
\<close>

theorem long_name_is_registered:
  "MAX_NAME < length long_name \<and>
   handle U st (str_of ''REG'' @ [comma] @ long_name @ [semicolon]) =
     (if long_name \<in> set (reg_users st)
      then (Some (str_of ''UAE;''), st)
      else (Some (str_of ''ROK;''), st\<lparr>reg_users := reg_users st @ [long_name]\<rparr>))"
proof -
  have "handle U st (str_of ''REG'' @ [comma] @ long_name @ [semicolon])
          = reg_block U st [str_of ''REG'', long_name @ [semicolon]]"
    by (rule handle_two_fields) (simp_all add: long_name_facts)
  also have "\<dots> = (if py_lower U long_name \<in> set (reg_users st)
            then (Some (str_of ''UAE;''), st)
            else (Some (str_of ''ROK;''), st\<lparr>reg_users := reg_users st @ [py_lower U long_name]\<rparr>))"
    by (rule reg_block_REG) (simp_all add: long_name_facts MAX_SIZE_def)
  finally show ?thesis by (simp add: long_name_facts MAX_NAME_def)
qed

theorem long_name_is_registered_witness:
  "MAX_NAME < length long_name \<and>
   handle plain_db fresh (str_of ''REG'' @ [comma] @ long_name @ [semicolon]) =
     (Some (str_of ''ROK;''), fresh\<lparr>reg_users := [long_name]\<rparr>)"
  using long_name_is_registered [of plain_db fresh] by (simp add: fresh_def)

subsection \<open>C3\<close>

text \<open>
  C3 says that a text with no semicolon is answered INC whatever its command token.
  The text \<open>REG,alice\<close> has none and is answered INP.
\<close>

theorem no_semicolon_REG_is_not_INC:
  "semicolon \<notin> set (str_of ''REG,alice'') \<and>
   handle plain_db fresh (str_of ''REG,alice'') = (Some (str_of ''INP;''), fresh) \<and>
   str_of ''INP;'' \<noteq> str_of ''INC;''"
proof -
  have s: "split_on comma (str_of ''REG,alice'') = [str_of ''REG'', str_of ''alice'']"
    by (simp add: str_of_def comma_def)
  have e: "\<not> ends_semicolon (str_of ''alice'')" "\<not> ends_semicolon (str_of ''REG,alice'')"
    by (simp_all add: ends_semicolon_def str_of_def semicolon_def)
  have "handle plain_db fresh (str_of ''REG,alice'') = (Some (str_of ''INP;''), fresh)"
    unfolding handle_def Let_def s using e
    by (simp add: cmd_neq buildPacket_None response_text)
  moreover have "str_of ''INP;'' \<noteq> str_of ''INC;''" by (simp add: str_of_def)
  moreover have "semicolon \<notin> set (str_of ''REG,alice'')" by (simp add: str_of_def semicolon_def)
  ultimately show ?thesis by simp
qed

text \<open>
  C3 as amended: a text with no semicolon leaves the state as it is and is answered INP
  when the text before its first comma is REG, UNR or QUO, and INC when it is
  anything else.
\<close>

theorem no_semicolon_response:
  assumes "semicolon \<notin> set data"
  shows "handle U st data =
           (Some (if split_on comma data ! 0 \<in> set [str_of ''REG'', str_of ''UNR'', str_of ''QUO'']
                  then str_of ''INP;'' else str_of ''INC;''), st)"
proof -
  have d: "\<not> ends_semicolon data" using assms by (rule no_semicolon_not_ends)
  have f: "length (split_on comma data) = REG_FIELDS \<Longrightarrow> \<not> ends_semicolon (split_on comma data ! 1)"
    using no_semicolon_field [OF assms, of 1] by (simp add: REG_FIELDS_def)
  show ?thesis
    unfolding handle_def Let_def using d f
    by (auto simp: buildPacket_None response_text simp del: set_simps)
qed

theorem no_semicolon_response_witness:
  "semicolon \<notin> set (str_of ''REG,alice'') \<and>
   handle plain_db fresh (str_of ''REG,alice'') = (Some (str_of ''INP;''), fresh)"
proof -
  have n: "semicolon \<notin> set (str_of ''REG,alice'')" by (simp add: str_of_def semicolon_def)
  have s: "split_on comma (str_of ''REG,alice'') ! 0 = str_of ''REG''"
    by (simp add: str_of_def comma_def)
  show ?thesis using n no_semicolon_response [OF n, of plain_db fresh] s by simp
qed

subsection \<open>C4\<close>



subsection \<open>C5\<close>

text \<open>
  C5: for a user name that the server accepts (alphanumeric once in lower case, and
  within the length the REG block allows, which includes every name of at most 32
  characters) and that is not registered, the request \<open>REG,u;\<close> is answered ROK and
  stores the name in lower case; the same request again is answered UAE and leaves the
  store as the first request left it.
\<close>

theorem register_twice:
  assumes "py_isalnum U (py_lower U u)"
    and "length (py_lower U u) \<le> MAX_SIZE"
    and "py_lower U u \<notin> set (reg_users st)"
  shows "handle U st (str_of ''REG'' @ [comma] @ u @ [semicolon])
           = (Some (str_of ''ROK;''), st\<lparr>reg_users := reg_users st @ [py_lower U u]\<rparr>)
         \<and> handle U (st\<lparr>reg_users := reg_users st @ [py_lower U u]\<rparr>)
               (str_of ''REG'' @ [comma] @ u @ [semicolon])
           = (Some (str_of ''UAE;''), st\<lparr>reg_users := reg_users st @ [py_lower U u]\<rparr>)"
proof -
  have c: "comma \<notin> set u" using assms(1) by (rule isalnum_lower_no_comma)
  have h: "handle U s (str_of ''REG'' @ [comma] @ u @ [semicolon])
             = (if py_lower U u \<in> set (reg_users s)
                then (Some (str_of ''UAE;''), s)
                else (Some (str_of ''ROK;''), s\<lparr>reg_users := reg_users s @ [py_lower U u]\<rparr>))"
    for s
    using handle_two_fields [OF c, of "str_of ''REG''" U s] reg_block_REG [OF assms(1,2), of s]
    by simp
  show ?thesis
    using assms(3) h [of st] h [of "st\<lparr>reg_users := reg_users st @ [py_lower U u]\<rparr>"]
    by simp
qed

theorem register_twice_witness:
  "handle plain_db fresh (str_of ''REG,Alice;'')
     = (Some (str_of ''ROK;''), fresh\<lparr>reg_users := [str_of ''alice'']\<rparr>)
   \<and> handle plain_db (fresh\<lparr>reg_users := [str_of ''alice'']\<rparr>) (str_of ''REG,Alice;'')
     = (Some (str_of ''UAE;''), fresh\<lparr>reg_users := [str_of ''alice'']\<rparr>)"
proof -
  have l: "py_lower plain_db (str_of ''Alice'') = str_of ''alice''"
    by (simp add: py_lower_def str_of_def ascii_lower_def is_AZ_def)
  have a: "py_isalnum plain_db (py_lower plain_db (str_of ''Alice''))"
    unfolding l by (simp add: py_isalnum_def isalnum_cp_def ascii_isalnum_def str_of_def)
  have n: "length (py_lower plain_db (str_of ''Alice'')) \<le> MAX_SIZE"
    unfolding l by (simp add: str_of_def MAX_SIZE_def)
  have f: "py_lower plain_db (str_of ''Alice'') \<notin> set (reg_users fresh)"
    by (simp add: fresh_def)
  have r: "str_of ''REG'' @ [comma] @ str_of ''Alice'' @ [semicolon] = str_of ''REG,Alice;''"
    by (simp add: str_of_def comma_def semicolon_def)
  show ?thesis using register_twice [OF a n f] unfolding r l by (simp add: fresh_def)
qed

subsection \<open>C6\<close>

text \<open>
  C6: when \<open>recvfrom\<close> times out at each of the three attempts of an action, the client
  sends the request three times and no fourth time, each time the same bytes, prints
  the retry line after the first and the second timeout and \<open>timeout limit exceeded\<close>
  after the third, and the loop ends without an exception.
\<close>

theorem three_timeouts:
  assumes "\<And>k. k < ATTEMPT_LIMIT \<Longrightarrow> net k = Timeout"
  shows "retry_loop net out_pkt quote_csv 0 =
           \<lparr>sent = [out_pkt, out_pkt, out_pkt],
            printed = [str_of ''timeout -- retry...'', str_of ''timeout -- retry...'',
                       str_of ''timeout limit exceeded''],
            ended = Returned\<rparr>"
proof -
  have n: "net 0 = Timeout" "net (Suc 0) = Timeout" "net (Suc (Suc 0)) = Timeout"
    using assms by (simp_all add: ATTEMPT_LIMIT_def)
  have r3: "retry_loop net out_pkt quote_csv (Suc (Suc (Suc 0)))
              = \<lparr>sent = [], printed = [], ended = Returned\<rparr>"
    by (subst retry_loop.simps) (simp add: ATTEMPT_LIMIT_def)
  have r2: "retry_loop net out_pkt quote_csv (Suc (Suc 0)) =
              \<lparr>sent = [out_pkt], printed = [str_of ''timeout limit exceeded''], ended = Returned\<rparr>"
    by (subst retry_loop.simps) (simp add: ATTEMPT_LIMIT_def n r3)
  have r1: "retry_loop net out_pkt quote_csv (Suc 0) =
              \<lparr>sent = [out_pkt, out_pkt],
               printed = [str_of ''timeout -- retry...'', str_of ''timeout limit exceeded''],
               ended = Returned\<rparr>"
    by (subst retry_loop.simps) (simp add: ATTEMPT_LIMIT_def n r2)
  show ?thesis
    by (subst retry_loop.simps) (simp add: ATTEMPT_LIMIT_def n r1)
qed

theorem three_timeouts_witness:
  "retry_loop (\<lambda>k. Timeout) (utf8_of ''REG,alice;'') None 0 =
     \<lparr>sent = [utf8_of ''REG,alice;'', utf8_of ''REG,alice;'', utf8_of ''REG,alice;''],
      printed = [str_of ''timeout -- retry...'', str_of ''timeout -- retry...'',
                 str_of ''timeout limit exceeded''],
      ended = Returned\<rparr>"
  by (rule three_timeouts) simp

subsection \<open>C7\<close>

text \<open>
  C7 says that decoding what the encoder makes of a command code and a list of fields
  gives both back, for every command code. The encoder of the client leaves
  \<open>stocks_csv\<close> out of a REG and of an UNR packet: from REG, \<open>alice\<close> and \<open>IBM\<close> it
  builds the bytes of \<open>REG,alice;\<close>, which decode to two fields.
\<close>

theorem REG_packet_drops_field:
  "client_buildPacket (str_of ''REG'') (str_of ''alice'') (Some (str_of ''IBM''))
     = Inr (utf8_of ''REG,alice;'')
   \<and> decode_fields (utf8_of ''REG,alice;'') = Inr [str_of ''REG'', str_of ''alice'']
   \<and> [str_of ''REG'', str_of ''alice'']
       \<noteq> [str_of ''REG'', str_of ''alice'', str_of ''IBM'']"
proof -
  have "client_buildPacket (str_of ''REG'') (str_of ''alice'') (Some (str_of ''IBM''))
          = encode_utf8 (str_of ''REG,alice;'')"
    by (simp add: client_buildPacket_def str_of_def comma_def semicolon_def)
  also have "\<dots> = Inr (map of_nat (str_of ''REG,alice;''))"
    by (rule encode_utf8_ascii) (simp add: str_of_def)
  also have "map of_nat (str_of ''REG,alice;'') = utf8_of ''REG,alice;''"
    by (simp add: str_of_def utf8_of_def)
  finally have 1: "client_buildPacket (str_of ''REG'') (str_of ''alice'') (Some (str_of ''IBM''))
     = Inr (utf8_of ''REG,alice;'')" .
  have 2: "decode_fields (utf8_of ''REG,alice;'') = Inr [str_of ''REG'', str_of ''alice'']"
    by (simp add: decode_fields_def decode_utf8_def utf8_of_def response_fields_of_def
        str_of_def comma_def semicolon_def)
  from 1 2 show ?thesis by simp
qed

text \<open>
  C7 as amended: the fields are the user name and, joined by commas into
  \<open>stocks_csv\<close>, the fields after it, if there are any. When neither the command code
  nor a field holds a comma, a semicolon or a surrogate code point (for which
  \<open>bytes\<close> raises, \<open>surrogate_name_raises\<close>), there is no field after the user name
  for REG and UNR, and the fields after the user name are not the one empty field
  unless the command is QUO, then \<open>buildPacket\<close> returns a packet, and decoding the
  packet gives the command code and the fields back.
\<close>

theorem packet_roundtrip:
  assumes "list_all (\<lambda>f. comma \<notin> set f \<and> semicolon \<notin> set f \<and> list_all scalar_value f)
             (cmd # u_name # extra)"
    and "extra \<noteq> [] \<Longrightarrow> cmd \<notin> set [str_of ''REG'', str_of ''UNR'']"
    and "extra = [[]] \<Longrightarrow> cmd = str_of ''QUO''"
  shows "\<exists>pkt. client_buildPacket cmd u_name
                  (if extra = [] then None else Some (join_with comma extra)) = Inr pkt
               \<and> decode_fields pkt = Inr (cmd # u_name # extra)"
proof -
  have "client_buildPacket cmd u_name (if extra = [] then None else Some (join_with comma extra))
          = encode_utf8 (join_with comma (cmd # u_name # extra) @ [semicolon])"
    using assms(2,3) by (rule client_buildPacket_join)
  moreover have "\<exists>pkt. encode_utf8 (join_with comma (cmd # u_name # extra) @ [semicolon]) = Inr pkt
               \<and> decode_fields pkt = Inr (cmd # u_name # extra)"
    using assms(1) by (intro decode_fields_encoded) simp_all
  ultimately show ?thesis by simp
qed

theorem packet_roundtrip_witness:
  "(\<exists>pkt. client_buildPacket (str_of ''QUO'') (str_of ''alice'') (Some (str_of ''IBM,FB''))
            = Inr pkt
          \<and> decode_fields pkt
            = Inr [str_of ''QUO'', str_of ''alice'', str_of ''IBM'', str_of ''FB''])
   \<and> (\<exists>pkt. client_buildPacket (str_of ''REG'') [97, 233, 8364, 128512] None = Inr pkt
          \<and> decode_fields pkt = Inr [str_of ''REG'', [97, 233, 8364, 128512]])"
proof -
  have j: "str_of ''IBM'' @ comma # str_of ''FB'' = str_of ''IBM,FB''"
    by (simp add: str_of_def comma_def)
  have a: "\<exists>pkt. client_buildPacket (str_of ''QUO'') (str_of ''alice'')
                (if [str_of ''IBM'', str_of ''FB''] = [] then None
                 else Some (join_with comma [str_of ''IBM'', str_of ''FB''])) = Inr pkt
          \<and> decode_fields pkt
            = Inr [str_of ''QUO'', str_of ''alice'', str_of ''IBM'', str_of ''FB'']"
    by (rule packet_roundtrip)
      (simp_all add: str_of_def comma_def semicolon_def scalar_value_def)
  have b: "\<exists>pkt. client_buildPacket (str_of ''REG'') [97, 233, 8364, 128512]
                (if ([]::pystr list) = [] then None else Some (join_with comma [])) = Inr pkt
          \<and> decode_fields pkt = Inr [str_of ''REG'', [97, 233, 8364, 128512]]"
    by (rule packet_roundtrip)
      (simp_all add: str_of_def comma_def semicolon_def scalar_value_def)
  from a b show ?thesis by (simp add: j)
qed

subsection \<open>C8\<close>

text \<open>
  C8: a datagram whose text has the command token QUO is answered and leaves the state,
  the registered users and the catalog, as it was; the same datagram served again right
  after gets the same response.
\<close>

theorem quo_replay:
  assumes "decode_utf8 (take MAX_SIZE dgram) = Inr data"
    and "split_on comma data ! 0 = str_of ''QUO''"
  shows "\<exists>send_pkt. serve_step U st dgram = Sent send_pkt st
           \<and> serve U st [dgram, dgram] = ([send_pkt, send_pkt], st, None)"
proof -
  obtain send_pkt where p: "fst (handle U st data) = Some send_pkt"
    using handle_sends by blast
  have "snd (handle U st data) = st" using assms(2) by (rule handle_QUO_state)
  with p have h: "handle U st data = (Some send_pkt, st)" by (simp add: prod_eq_iff)
  have s: "serve_step U st dgram = Sent send_pkt st"
    by (simp add: serve_step_def assms(1) h)
  then have "serve U st [dgram, dgram] = ([send_pkt, send_pkt], st, None)" by simp
  with s show ?thesis by blast
qed

theorem quo_replay_witness:
  "serve_step plain_db alice_in (utf8_of ''QUO,alice,IBM,XX;'')
     = Sent (str_of ''ROK,121.11,-1;'') alice_in
   \<and> serve plain_db alice_in [utf8_of ''QUO,alice,IBM,XX;'', utf8_of ''QUO,alice,IBM,XX;'']
     = ([str_of ''ROK,121.11,-1;'', str_of ''ROK,121.11,-1;''], alice_in, None)"
proof -
  let ?d = "utf8_of ''QUO,alice,IBM,XX;''"
  let ?data = "str_of ''QUO,alice,IBM,XX;''"
  have dec: "decode_utf8 (take MAX_SIZE ?d) = Inr ?data"
    by (simp add: decode_utf8_def utf8_of_def str_of_def MAX_SIZE_def)
  have s: "split_on comma ?data
             = [str_of ''QUO'', str_of ''alice'', str_of ''IBM'', str_of ''XX;'']"
    by (simp add: str_of_def comma_def)
  have q: "split_on comma ?data ! 0 = str_of ''QUO''" unfolding s by simp
  obtain send_pkt where p: "serve_step plain_db alice_in ?d = Sent send_pkt alice_in"
    and r: "serve plain_db alice_in [?d, ?d] = ([send_pkt, send_pkt], alice_in, None)"
    using quo_replay [OF dec q, of plain_db alice_in] by blast
  have l: "py_lower plain_db (str_of ''alice'') = str_of ''alice''"
    by (rule py_lower_plain) (simp add: str_of_def is_AZ_def)
  have a: "py_isalnum plain_db (str_of ''alice'')"
    by (simp add: py_isalnum_def isalnum_cp_def ascii_isalnum_def str_of_def)
  have b: "quo_block plain_db alice_in (split_on comma ?data)
             = (Some (str_of ''ROK'' @ [comma]
                  @ join_with comma
                      (map (price_of (stock_dict alice_in)) [str_of ''IBM'', str_of ''XX''])
                  @ [semicolon]), alice_in)"
  proof (rule quo_block_tickers)
    show "length (py_lower plain_db (split_on comma ?data ! 1)) \<le> MAX_NAME"
      unfolding s by (simp add: l) (simp add: str_of_def MAX_NAME_def)
    show "py_isalnum plain_db (py_lower plain_db (split_on comma ?data ! 1))"
      unfolding s by (simp add: l a)
    show "py_lower plain_db (split_on comma ?data ! 1) \<in> set (reg_users alice_in)"
      unfolding s by (simp add: l alice_in_def)
    show "butlast (join_with comma (drop 2 (split_on comma ?data)))
            = join_with comma [str_of ''IBM'', str_of ''XX'']"
      unfolding s by (simp add: str_of_def)
    show "[str_of ''IBM'', str_of ''XX''] \<noteq> []" by simp
    show "list_all is_ticker [str_of ''IBM'', str_of ''XX'']"
      by (simp add: is_ticker_def is_AZ_def str_of_def)
  qed
  have e: "ends_semicolon ?data" by (simp add: ends_semicolon_def str_of_def semicolon_def)
  have h: "handle plain_db alice_in ?data = quo_block plain_db alice_in (split_on comma ?data)"
    unfolding handle_def Let_def using q e s by (simp add: cmd_neq QUOTE_FIELDS_def)
  have "map (price_of (stock_dict alice_in)) [str_of ''IBM'', str_of ''XX'']
          = [str_of ''121.11'', str_of ''-1'']"
    by (simp add: alice_in_def fresh_def catalog_def price_of_def BAD_STOCK_def str_of_def)
  with b h have "handle plain_db alice_in ?data = (Some (str_of ''ROK,121.11,-1;''), alice_in)"
    by (simp add: str_of_def comma_def semicolon_def)
  then have "serve_step plain_db alice_in ?d = Sent (str_of ''ROK,121.11,-1;'') alice_in"
    by (simp add: serve_step_def dec)
  with p have "send_pkt = str_of ''ROK,121.11,-1;''" by simp
  with p r show ?thesis by simp
qed

subsection \<open>C9\<close>

text \<open>
  C9: with no registered user no name is stored twice and every stored name is in
  lower case, and whatever text the handler is given and whatever datagrams the serve
  loop handles, the state that is left has both properties again. In lower case means
  that the name holds no capital letter A to Z and that \<open>str.lower\<close> gives it back.
  For the ASCII code points this is proved of the model; of the Unicode table it is
  asked that what it gives for a code point from 128 on is in lower case.
\<close>

theorem users_distinct_lowercase:
  assumes "lower_table_ok U"
  shows "users_inv U (st\<lparr>reg_users := []\<rparr>)
         \<and> (users_inv U st \<longrightarrow> users_inv U (snd (handle U st data)))
         \<and> (users_inv U st \<longrightarrow> users_inv U (fst (snd (serve U st dgrams))))"
  using handle_inv [OF assms] serve_inv [OF assms] by (simp add: users_inv_def)

theorem users_distinct_lowercase_witness:
  "lower_table_ok plain_db
   \<and> users_inv plain_db fresh
   \<and> handle plain_db fresh (str_of ''REG,Alice;'') = (Some (str_of ''ROK;''), alice_in)
   \<and> reg_users alice_in = [str_of ''alice'']
   \<and> users_inv plain_db alice_in
   \<and> handle plain_db alice_in (str_of ''REG,ALICE;'') = (Some (str_of ''UAE;''), alice_in)
   \<and> serve plain_db fresh
        [utf8_of ''REG,Alice;'', utf8_of ''REG,ALICE;'', utf8_of ''UNR,aLiCe;'']
      = ([str_of ''ROK;'', str_of ''UAE;'', str_of ''ROK;''], fresh, None)
   \<and> users_inv plain_db
        (fst (snd (serve plain_db fresh
           [utf8_of ''REG,Alice;'', utf8_of ''REG,ALICE;'', utf8_of ''UNR,aLiCe;''])))"
proof -
  note step = users_distinct_lowercase [OF lower_table_ok_plain_db]
  have f: "fresh\<lparr>reg_users := []\<rparr> = fresh" by (simp add: fresh_def)
  have inv0: "users_inv plain_db fresh" using step [of fresh] unfolding f by blast
  have low: "py_lower plain_db (str_of ''Alice'') = str_of ''alice''"
    "py_lower plain_db (str_of ''ALICE'') = str_of ''alice''"
    "py_lower plain_db (str_of ''aLiCe'') = str_of ''alice''"
    by (simp_all add: py_lower_def str_of_def ascii_lower_def is_AZ_def)
  have aln: "py_isalnum plain_db (str_of ''alice'')"
    by (simp add: py_isalnum_def isalnum_cp_def ascii_isalnum_def str_of_def)
  have len: "length (str_of ''alice'') \<le> MAX_SIZE" by (simp add: str_of_def MAX_SIZE_def)
  have req: "str_of ''REG,Alice;'' = str_of ''REG'' @ [comma] @ str_of ''Alice'' @ [semicolon]"
    "str_of ''REG,ALICE;'' = str_of ''REG'' @ [comma] @ str_of ''ALICE'' @ [semicolon]"
    "str_of ''UNR,aLiCe;'' = str_of ''UNR'' @ [comma] @ str_of ''aLiCe'' @ [semicolon]"
    by (simp_all add: str_of_def comma_def semicolon_def)
  have nc: "comma \<notin> set (str_of ''Alice'')" "comma \<notin> set (str_of ''ALICE'')"
    "comma \<notin> set (str_of ''aLiCe'')"
    by (simp_all add: str_of_def comma_def)
  have h1: "handle plain_db fresh (str_of ''REG,Alice;'') = (Some (str_of ''ROK;''), alice_in)"
    unfolding req
    using handle_two_fields [OF nc(1), of "str_of ''REG''" plain_db fresh]
      reg_block_REG [of plain_db "str_of ''Alice''" fresh] aln len
    by (simp add: low alice_in_def fresh_def)
  have h2: "handle plain_db alice_in (str_of ''REG,ALICE;'') = (Some (str_of ''UAE;''), alice_in)"
    unfolding req
    using handle_two_fields [OF nc(2), of "str_of ''REG''" plain_db alice_in]
      reg_block_REG [of plain_db "str_of ''ALICE''" alice_in] aln len
    by (simp add: low alice_in_def fresh_def)
  have h3: "handle plain_db alice_in (str_of ''UNR,aLiCe;'') = (Some (str_of ''ROK;''), fresh)"
    unfolding req
    using handle_two_fields [OF nc(3), of "str_of ''UNR''" plain_db alice_in]
      reg_block_UNR [of plain_db "str_of ''aLiCe''" alice_in] aln len
    by (simp add: low alice_in_def fresh_def)
  have d: "decode_utf8 (take MAX_SIZE (utf8_of ''REG,Alice;'')) = Inr (str_of ''REG,Alice;'')"
    "decode_utf8 (take MAX_SIZE (utf8_of ''REG,ALICE;'')) = Inr (str_of ''REG,ALICE;'')"
    "decode_utf8 (take MAX_SIZE (utf8_of ''UNR,aLiCe;'')) = Inr (str_of ''UNR,aLiCe;'')"
    by (simp_all add: decode_utf8_def utf8_of_def str_of_def MAX_SIZE_def)
  have s: "serve plain_db fresh
        [utf8_of ''REG,Alice;'', utf8_of ''REG,ALICE;'', utf8_of ''UNR,aLiCe;'']
      = ([str_of ''ROK;'', str_of ''UAE;'', str_of ''ROK;''], fresh, None)"
    by (simp add: serve_step_text [OF d(1) h1] serve_step_text [OF d(2) h2]
        serve_step_text [OF d(3) h3])
  have inv1: "users_inv plain_db alice_in"
    using step [of fresh "str_of ''REG,Alice;''"] inv0 unfolding h1 by simp
  have inv2: "users_inv plain_db
        (fst (snd (serve plain_db fresh
           [utf8_of ''REG,Alice;'', utf8_of ''REG,ALICE;'', utf8_of ''UNR,aLiCe;''])))"
    using step [of fresh _ "[utf8_of ''REG,Alice;'', utf8_of ''REG,ALICE;'', utf8_of ''UNR,aLiCe;'']"]
      inv0 by blast
  have r: "reg_users alice_in = [str_of ''alice'']" by (simp add: alice_in_def)
  from lower_table_ok_plain_db inv0 h1 r inv1 h2 s inv2 show ?thesis by blast
qed

subsection \<open>C10\<close>

text \<open>
  C10: a reply that decodes and whose first field is none of ROK, INC, INP, UAE, UNR,
  INU makes the lookup in \<open>response_codes\<close> raise \<open>KeyError\<close>, which no handler of
  the client catches: nothing is printed, the request is not sent again, and the
  exception leaves the loop. The reply \<open>XYZ;\<close> is one.
\<close>

theorem unknown_code_raises:
  assumes "attempts < ATTEMPT_LIMIT"
    and "net attempts = Reply dgram"
    and "decode_utf8 (take MAX_SIZE dgram) = Inr response"
    and "response_fields_of response ! 0 \<notin>
           set [str_of ''ROK'', str_of ''INC'', str_of ''INP'',
                str_of ''UAE'', str_of ''UNR'', str_of ''INU'']"
  shows "retry_loop net out_pkt quote_csv attempts =
           \<lparr>sent = [out_pkt], printed = [], ended = Raised KeyError\<rparr>"
proof -
  have "map_of response_codes (response_fields_of response ! 0) = None"
    using assms(4) by (simp add: response_codes_def)
  then have "show_reply (take MAX_SIZE dgram) quote_csv = ([], Some KeyError)"
    by (simp add: show_reply_def assms(3) Let_def)
  then show ?thesis
    by (subst retry_loop.simps) (simp add: assms(1,2))
qed

theorem unknown_code_raises_witness:
  "retry_loop (\<lambda>k. Reply (utf8_of ''XYZ;'')) (utf8_of ''REG,alice;'') None 0 =
     \<lparr>sent = [utf8_of ''REG,alice;''], printed = [], ended = Raised KeyError\<rparr>"
proof (rule unknown_code_raises)
  show "0 < ATTEMPT_LIMIT" by (simp add: ATTEMPT_LIMIT_def)
  show "(\<lambda>k. Reply (utf8_of ''XYZ;'')) 0 = Reply (utf8_of ''XYZ;'')" by simp
  show "decode_utf8 (take MAX_SIZE (utf8_of ''XYZ;'')) = Inr (str_of ''XYZ;'')"
    by (simp add: decode_utf8_def utf8_of_def str_of_def MAX_SIZE_def)
  show "response_fields_of (str_of ''XYZ;'') ! 0 \<notin>
           set [str_of ''ROK'', str_of ''INC'', str_of ''INP'',
                str_of ''UAE'', str_of ''UNR'', str_of ''INU'']"
    by (simp add: response_fields_of_def str_of_def comma_def semicolon_def)
qed

end
